theory Spec2Isabelle
  imports Complex_Main "HOL-Library.Multiset" "HOL-Library.Sublist"
begin

section \<open>Values shared by both reconciliation programs\<close>

text \<open>
  Python's \<open>Decimal\<close> amounts are modelled as exact rationals: sums and differences of
  the amounts are exact as long as the 28 significant digits of the default decimal context
  are not exceeded, which is taken for granted here. A naive \<open>datetime\<close> is the number of
  microseconds since an arbitrary origin; a \<open>timedelta\<close> is a difference of two such numbers,
  and its \<open>.days\<close> attribute is the floor of the quotient by the length of a day (Python
  normalises a negative timedelta to a negative day count plus a non-negative rest).
  Strings are byte strings; \<open>str.upper\<close> is modelled on ASCII letters, every other character
  is left as it is.
\<close>

type_synonym datetime = int

definition day_us :: int where
  "day_us = 86400000000"

definition timedelta_days :: "int \<Rightarrow> int" where
  "timedelta_days delta = delta div day_us"

text \<open>
  An object reference held by a report is modelled as the position of the object in the
  list it was taken from, paired with the object's value. Each position of an input list is
  taken to hold an object of its own (the parsers append a fresh object per parsed line).
\<close>

type_synonym 'a ref = "nat \<times> 'a"

subsection \<open>Strings\<close>

definition upper_char :: "char \<Rightarrow> char" where
  "upper_char c =
     (let n = (of_char c :: nat) in if 97 \<le> n \<and> n \<le> 122 then char_of (n - 32) else c)"

definition upper :: "string \<Rightarrow> string" where
  "upper s = map upper_char s"

text \<open>\<open>s.replace(c, '')\<close> for a one-character string \<open>c\<close>.\<close>

definition remove_char :: "char \<Rightarrow> string \<Rightarrow> string" where
  "remove_char c s = filter (\<lambda>x. x \<noteq> c) s"

text \<open>\<open>a in b\<close> on two strings: \<open>a\<close> occurs in \<open>b\<close> as a contiguous substring.\<close>

fun str_in :: "string \<Rightarrow> string \<Rightarrow> bool" where
  "str_in a [] = (a = [])"
| "str_in a (y # ys) = (prefix a (y # ys) \<or> str_in a ys)"

subsection \<open>Insertion-ordered dictionaries\<close>

text \<open>
  A Python \<open>dict\<close> keeps its keys in the order of their first insertion; storing under a
  key that is present replaces the value and leaves the key where it is.
  \<open>dict_update k f dflt d\<close> is \<open>d[k] = f(d[k])\<close> on a \<open>defaultdict\<close> whose factory
  returns \<open>dflt\<close>; \<open>dict_set k v d\<close> is \<open>d[k] = v\<close>.
\<close>

fun dict_update :: "'k \<Rightarrow> ('v \<Rightarrow> 'v) \<Rightarrow> 'v \<Rightarrow> ('k \<times> 'v) list \<Rightarrow> ('k \<times> 'v) list" where
  "dict_update k f dflt [] = [(k, f dflt)]"
| "dict_update k f dflt ((k', v) # kvs) =
     (if k' = k then (k', f v) # kvs else (k', v) # dict_update k f dflt kvs)"

fun dict_set :: "'k \<Rightarrow> 'v \<Rightarrow> ('k \<times> 'v) list \<Rightarrow> ('k \<times> 'v) list" where
  "dict_set k v [] = [(k, v)]"
| "dict_set k v ((k', v') # kvs) =
     (if k' = k then (k', v) # kvs else (k', v') # dict_set k v kvs)"

section \<open>The driver-identity engine (reconciliation_parser.py, reconciliation_engine.py)\<close>

subsection \<open>Records of the parser module\<close>

record Invoice =
  invoice_number :: string
  invoice_date :: string
  invoice_amount :: rat
  discount :: rat
  amount_paid :: rat
  vin :: string
  location :: string

record PaymentRemittance =
  payment_date :: datetime
  payment_reference :: string
  paper_document_number :: string
  payment_amount :: rat
  invoices :: "Invoice list"
  pr_source_file :: string

record BankTransaction =
  transaction_date :: datetime
  bt_amount :: rat
  bt_description :: string
  recipient :: string
  transaction_type :: string
  bt_source_file :: string

record DriverScheduleEntry =
  se_date :: datetime
  driver :: string
  se_company :: string
  se_pickup :: string
  se_dropoff :: string
  load_number :: string
  se_amount :: "rat option"
  se_date_paid :: "datetime option"
  se_notes :: string
  se_source_file :: string

record ReconciliationData =
  payment_remittances :: "PaymentRemittance list"
  bank_transactions :: "BankTransaction list"
  driver_schedules :: "DriverScheduleEntry list"

subsection \<open>The driver-name normalizer\<close>

definition driver_name_map :: "(string \<times> string) list" where
  "driver_name_map =
     [(''RICH-LITTLE'', ''Little Rich''),
      (''BIGRICH'', ''Rich''),
      (''BIG RICH'', ''Rich''),
      (''STEVEMARTIN'', ''Steve''),
      (''STEVE MARTIN'', ''Steve''),
      (''TONY'', ''Tony'')]"

text \<open>\<open>s.replace(' ', '').replace('-', '')\<close>\<close>

definition strip_name :: "string \<Rightarrow> string" where
  "strip_name s = remove_char CHR ''-'' (remove_char CHR '' '' s)"

text \<open>The loop over the items of the alias table: the first key that matches returns.\<close>

fun find_alias :: "(string \<times> string) list \<Rightarrow> string \<Rightarrow> string option" where
  "find_alias [] name_upper = None"
| "find_alias ((key, val) # rest) name_upper =
     (if strip_name key = name_upper then Some val else find_alias rest name_upper)"

definition normalize_driver_name :: "string \<Rightarrow> string" where
  "normalize_driver_name name =
     (let name_upper = strip_name (upper name)
      in case find_alias driver_name_map name_upper of
           Some val \<Rightarrow> val
         | None \<Rightarrow> name)"

subsection \<open>Reports of the engine\<close>

text \<open>
  \<open>report_date\<close> (the wall-clock time at which the report object is created) is left
  out of the report record; nothing in the engine reads it.
\<close>

record ReconciliationMatch =
  driver_entry :: "DriverScheduleEntry ref option"
  payment_remittance :: "PaymentRemittance ref option"
  bank_transaction :: "BankTransaction ref option"
  match_type :: string
  discrepancy :: "string option"
  amount_difference :: rat

record DriverSummary =
  scheduled_loads :: int
  scheduled_amount :: rat
  paid_loads :: int
  paid_amount :: rat
  unpaid_loads :: int
  unpaid_amount :: rat

record ReconciliationReport =
  date_range_start :: "datetime option"
  date_range_end :: "datetime option"
  total_remittances_received :: rat
  total_paid_to_drivers :: rat
  total_scheduled_amount :: rat
  full_matches :: "ReconciliationMatch list"
  partial_matches :: "ReconciliationMatch list"
  missing_payments :: "DriverScheduleEntry ref list"
  missing_bank_transactions :: "DriverScheduleEntry ref list"
  orphan_payments :: "PaymentRemittance ref list"
  orphan_bank_transactions :: "BankTransaction ref list"
  amount_discrepancies :: "ReconciliationMatch list"
  driver_summaries :: "(string \<times> DriverSummary) list"

definition empty_report :: ReconciliationReport where
  "empty_report =
     \<lparr>date_range_start = None, date_range_end = None,
      total_remittances_received = 0, total_paid_to_drivers = 0, total_scheduled_amount = 0,
      full_matches = [], partial_matches = [], missing_payments = [],
      missing_bank_transactions = [], orphan_payments = [], orphan_bank_transactions = [],
      amount_discrepancies = [], driver_summaries = []\<rparr>"

subsection \<open>The matching loop\<close>

text \<open>
  \<open>if x.amount:\<close> on an optional decimal: the amount counts when it is present and not
  zero (\<open>None\<close> and \<open>Decimal('0')\<close> are both falsy).
\<close>

definition truthy_amount :: "rat option \<Rightarrow> rat option" where
  "truthy_amount a = (case a of None \<Rightarrow> None | Some x \<Rightarrow> if x = 0 then None else Some x)"

text \<open>
  One round of the inner loop over \<open>enumerate(bank_transactions)\<close>; the loop state is
  \<open>(best_match, best_match_score)\<close>.
\<close>

definition scan_step ::
  "int \<Rightarrow> datetime \<Rightarrow> rat \<Rightarrow> string \<Rightarrow> nat set \<Rightarrow> nat \<times> BankTransaction
     \<Rightarrow> nat option \<times> int \<Rightarrow> nat option \<times> int" where
  "scan_step lookback_days entry_date entry_amount driver_normalized matched_bank_trans ib best =
     (case ib of (i, bank_trans) \<Rightarrow>
      case best of (best_match, best_match_score) \<Rightarrow>
        if i \<in> matched_bank_trans then (best_match, best_match_score)
        else
          let recipient_normalized = normalize_driver_name (recipient bank_trans) in
          if driver_normalized \<noteq> recipient_normalized then (best_match, best_match_score)
          else if \<bar>bt_amount bank_trans - entry_amount\<bar> < 1 / 100 then
            let date_diff = \<bar>timedelta_days (transaction_date bank_trans - entry_date)\<bar> in
            if date_diff \<le> lookback_days then
              let score = 100 - date_diff in
              if score > best_match_score then (Some i, score)
              else (best_match, best_match_score)
            else (best_match, best_match_score)
          else (best_match, best_match_score))"

definition find_best_match ::
  "int \<Rightarrow> datetime \<Rightarrow> rat \<Rightarrow> string \<Rightarrow> nat set \<Rightarrow> BankTransaction list \<Rightarrow> nat option" where
  "find_best_match lookback_days entry_date entry_amount driver_normalized matched_bank_trans bts =
     fst (fold (scan_step lookback_days entry_date entry_amount driver_normalized
                  matched_bank_trans)
            (enumerate 0 bts) (None, 0))"

definition full_match :: "DriverScheduleEntry ref \<Rightarrow> BankTransaction ref \<Rightarrow> ReconciliationMatch" where
  "full_match e b =
     \<lparr>driver_entry = Some e, payment_remittance = None, bank_transaction = Some b,
      match_type = ''FULL'', discrepancy = None, amount_difference = 0\<rparr>"

text \<open>
  One round of the outer loop over the sorted driver schedules. The loop state is the report
  together with the two sets \<open>matched_schedules\<close> and \<open>matched_bank_trans\<close>; the identity
  \<open>id(schedule_entry)\<close> stored in the first set is the entry's position.
\<close>

definition match_entry ::
  "int \<Rightarrow> BankTransaction list \<Rightarrow> DriverScheduleEntry ref
     \<Rightarrow> ReconciliationReport \<times> nat set \<times> nat set \<Rightarrow> ReconciliationReport \<times> nat set \<times> nat set" where
  "match_entry lookback_days bts ie st =
     (case ie of (idx, schedule_entry) \<Rightarrow>
      case st of (report, matched_schedules, matched_bank_trans) \<Rightarrow>
        case truthy_amount (se_amount schedule_entry) of
          None \<Rightarrow> (report, matched_schedules, matched_bank_trans)
        | Some amt \<Rightarrow>
            let driver_normalized = normalize_driver_name (driver schedule_entry) in
            case find_best_match lookback_days (se_date schedule_entry) amt driver_normalized
                   matched_bank_trans bts of
              Some best_match \<Rightarrow>
                (report\<lparr>full_matches := full_matches report @
                     [full_match (idx, schedule_entry) (best_match, bts ! best_match)]\<rparr>,
                 insert idx matched_schedules,
                 insert best_match matched_bank_trans)
            | None \<Rightarrow>
                (report\<lparr>missing_bank_transactions :=
                     missing_bank_transactions report @ [(idx, schedule_entry)]\<rparr>,
                 matched_schedules, matched_bank_trans))"

subsection \<open>Driver summaries\<close>

definition default_summary :: DriverSummary where
  "default_summary =
     \<lparr>scheduled_loads = 0, scheduled_amount = 0, paid_loads = 0, paid_amount = 0,
      unpaid_loads = 0, unpaid_amount = 0\<rparr>"

definition count_scheduled ::
  "DriverScheduleEntry \<Rightarrow> (string \<times> DriverSummary) list \<Rightarrow> (string \<times> DriverSummary) list" where
  "count_scheduled schedule_entry summaries =
     (let drv = normalize_driver_name (driver schedule_entry);
          summaries1 = dict_update drv (\<lambda>s. s\<lparr>scheduled_loads := scheduled_loads s + 1\<rparr>)
                         default_summary summaries
      in case truthy_amount (se_amount schedule_entry) of
           None \<Rightarrow> summaries1
         | Some amt \<Rightarrow>
             dict_update drv (\<lambda>s. s\<lparr>scheduled_amount := scheduled_amount s + amt\<rparr>)
               default_summary summaries1)"

definition count_paid ::
  "ReconciliationMatch \<Rightarrow> (string \<times> DriverSummary) list \<Rightarrow> (string \<times> DriverSummary) list" where
  "count_paid m summaries =
     (case driver_entry m of
        None \<Rightarrow> summaries
      | Some (idx, schedule_entry) \<Rightarrow>
          let drv = normalize_driver_name (driver schedule_entry);
              summaries1 = dict_update drv (\<lambda>s. s\<lparr>paid_loads := paid_loads s + 1\<rparr>)
                             default_summary summaries
          in case truthy_amount (se_amount schedule_entry) of
               None \<Rightarrow> summaries1
             | Some amt \<Rightarrow>
                 dict_update drv (\<lambda>s. s\<lparr>paid_amount := paid_amount s + amt\<rparr>)
                   default_summary summaries1)"

definition count_unpaid ::
  "DriverScheduleEntry ref \<Rightarrow> (string \<times> DriverSummary) list \<Rightarrow> (string \<times> DriverSummary) list" where
  "count_unpaid ie summaries =
     (case ie of (idx, schedule_entry) \<Rightarrow>
        let drv = normalize_driver_name (driver schedule_entry);
            summaries1 = dict_update drv (\<lambda>s. s\<lparr>unpaid_loads := unpaid_loads s + 1\<rparr>)
                           default_summary summaries
        in case truthy_amount (se_amount schedule_entry) of
             None \<Rightarrow> summaries1
           | Some amt \<Rightarrow>
               dict_update drv (\<lambda>s. s\<lparr>unpaid_amount := unpaid_amount s + amt\<rparr>)
                 default_summary summaries1)"

definition build_driver_summaries ::
  "ReconciliationData \<Rightarrow> ReconciliationReport \<Rightarrow> (string \<times> DriverSummary) list" where
  "build_driver_summaries data report =
     fold count_unpaid (missing_bank_transactions report)
       (fold count_paid (full_matches report)
          (fold count_scheduled (driver_schedules data) []))"

text \<open>The source returns the empty list, whatever the data holds.\<close>

definition find_orphan_payments :: "ReconciliationData \<Rightarrow> PaymentRemittance ref list" where
  "find_orphan_payments data = []"

subsection \<open>One reconciliation run\<close>

definition date_range :: "datetime list \<Rightarrow> datetime option \<times> datetime option" where
  "date_range all_dates =
     (case all_dates of
        [] \<Rightarrow> (None, None)
      | d # ds \<Rightarrow> (Some (fold min ds d), Some (fold max ds d)))"

text \<open>
  \<open>reconcile\<close> first sorts the three lists of its data object in place, by date
  (\<open>list.sort\<close> is stable), and from then on only reads them.
\<close>

definition sort_data :: "ReconciliationData \<Rightarrow> ReconciliationData" where
  "sort_data data =
     \<lparr>payment_remittances = sort_key payment_date (payment_remittances data),
      bank_transactions = sort_key transaction_date (bank_transactions data),
      driver_schedules = sort_key se_date (driver_schedules data)\<rparr>"

text \<open>The date range and the three totals, computed on the sorted data.\<close>

definition totals_report :: "ReconciliationData \<Rightarrow> ReconciliationReport" where
  "totals_report data =
     (let all_dates = map payment_date (payment_remittances data)
                        @ map transaction_date (bank_transactions data)
                        @ map se_date (driver_schedules data)
      in empty_report
           \<lparr>date_range_start := fst (date_range all_dates),
            date_range_end := snd (date_range all_dates),
            total_remittances_received := sum_list (map payment_amount (payment_remittances data)),
            total_paid_to_drivers := sum_list (map bt_amount (bank_transactions data)),
            total_scheduled_amount :=
              sum_list (map (\<lambda>s. case truthy_amount (se_amount s) of
                                    None \<Rightarrow> 0 | Some a \<Rightarrow> a) (driver_schedules data))\<rparr>)"

text \<open>The loop over the driver schedules, started with both sets empty.\<close>

definition match_schedules ::
  "int \<Rightarrow> ReconciliationData \<Rightarrow> ReconciliationReport \<Rightarrow> ReconciliationReport \<times> nat set \<times> nat set" where
  "match_schedules lookback_days data report =
     fold (match_entry lookback_days (bank_transactions data))
       (enumerate 0 (driver_schedules data)) (report, {}, {})"

text \<open>
  The model of \<open>reconcile\<close> returns the report together with the data object as the call
  leaves it.
\<close>

definition reconcile :: "ReconciliationData \<Rightarrow> int \<Rightarrow> ReconciliationReport \<times> ReconciliationData" where
  "reconcile data lookback_days =
     (let data1 = sort_data data;
          report1 = totals_report data1
      in case match_schedules lookback_days data1 report1 of
           (report2, matched_schedules, matched_bank_trans) \<Rightarrow>
             let report3 = report2
                   \<lparr>orphan_bank_transactions :=
                      filter (\<lambda>(i, bank_trans). i \<notin> matched_bank_trans)
                        (enumerate 0 (bank_transactions data1))\<rparr>;
                 report4 = report3\<lparr>driver_summaries := build_driver_summaries data1 report3\<rparr>;
                 report5 = report4\<lparr>orphan_payments := find_orphan_payments data1\<rparr>
             in (report5, data1))"

section \<open>The load-reference program (reconcile_loads_payments.py)\<close>

text \<open>
  Dates are kept as the strings the parser read. \<open>reconcile_data\<close> never looks inside a
  payment, so the payment type is a parameter. The match reason, an f-string in the source,
  is modelled by the data it is formatted from.
  The dictionary \<open>loads_by_num\<close>, which the source builds and never reads, is left out.
  Loads and deposits are plain objects compared by identity, which is their position in the
  input list.
\<close>

record Load =
  ld_date :: string
  ld_company :: string
  ld_pickup :: string
  ld_dropoff :: string
  load_num :: "string option"
  ld_amount :: rat
  ld_date_paid :: "string option"
  ld_notes :: "string option"
  ld_source_file :: string

record Deposit =
  dep_date :: string
  dep_description :: string
  dep_amount :: rat
  balance :: rat
  load_ref :: "string option"
  dep_source_file :: string

datatype match_reason =
    LoadNumMatched string
  | PartialLoadNum string string
  | AmountMatch rat

record 'p Reconciliation =
  rc_load :: "Load ref option"
  rc_payment :: "'p option"
  rc_deposit :: "Deposit ref option"
  match_confidence :: "string option"
  rc_match_reason :: "match_reason option"

text \<open>
  \<open>{dep.load_ref: dep for dep in deposits if dep.load_ref}\<close>: a reference that is
  \<open>None\<close> or empty is left out; a later deposit with the same reference replaces the value
  stored under the key.
\<close>

definition deposits_by_ref :: "Deposit list \<Rightarrow> (string \<times> Deposit ref) list" where
  "deposits_by_ref deposits =
     fold (\<lambda>jd d. case load_ref (snd jd) of
                     None \<Rightarrow> d
                   | Some r \<Rightarrow> if r = [] then d else dict_set r jd d)
       (enumerate 0 deposits) []"

text \<open>The loop of the partial match over the items of the lookup, left at the first hit.\<close>

fun find_partial ::
  "(string \<times> Deposit ref) list \<Rightarrow> string option \<Rightarrow> (string \<times> Deposit ref) option" where
  "find_partial [] lnum = None"
| "find_partial ((dep_ref, deposit) # rest) lnum =
     (if dep_ref \<noteq> [] \<and>
         (case lnum of None \<Rightarrow> False
          | Some l \<Rightarrow> l \<noteq> [] \<and> (str_in dep_ref l \<or> str_in l dep_ref))
      then Some (dep_ref, deposit)
      else find_partial rest lnum)"

text \<open>
  The loop of the amount match over all deposits, left at the first deposit whose amount is
  within a cent and which no reconciliation made so far holds (\<open>used\<close> are the positions of
  the deposits held by \<open>reconciled\<close>; the source compares the objects by identity).
\<close>

fun find_amount :: "Deposit ref list \<Rightarrow> rat \<Rightarrow> nat list \<Rightarrow> Deposit ref option" where
  "find_amount [] amt used = None"
| "find_amount ((j, deposit) # rest) amt used =
     (if \<bar>dep_amount deposit - amt\<bar> < 1 / 100 \<and> j \<notin> set used then Some (j, deposit)
      else find_amount rest amt used)"

definition reconciled_deposits :: "'p Reconciliation list \<Rightarrow> nat list" where
  "reconciled_deposits reconciled =
     concat (map (\<lambda>r. case rc_deposit r of None \<Rightarrow> [] | Some (j, d) \<Rightarrow> [j]) reconciled)"

text \<open>The three tiers for one load: the deposit found, the reason and the confidence.\<close>

definition find_deposit ::
  "Deposit list \<Rightarrow> (string \<times> Deposit ref) list \<Rightarrow> 'p Reconciliation list \<Rightarrow> Load
     \<Rightarrow> (Deposit ref \<times> match_reason \<times> string) option" where
  "find_deposit deposits by_ref reconciled load =
     (let direct =
            (case load_num load of
               None \<Rightarrow> None
             | Some lnum \<Rightarrow>
                 (case map_of by_ref lnum of
                    Some matched_deposit \<Rightarrow> Some (matched_deposit, LoadNumMatched lnum, ''high'')
                  | None \<Rightarrow>
                      (case find_partial by_ref (Some lnum) of
                         Some (dep_ref, matched_deposit) \<Rightarrow>
                           Some (matched_deposit, PartialLoadNum lnum dep_ref, ''medium'')
                       | None \<Rightarrow> None)))
      in case direct of
           Some found \<Rightarrow> Some found
         | None \<Rightarrow>
             (case find_amount (enumerate 0 deposits) (ld_amount load)
                     (reconciled_deposits reconciled) of
                Some matched_deposit \<Rightarrow>
                  Some (matched_deposit, AmountMatch (ld_amount load), ''low'')
              | None \<Rightarrow> None))"

definition reconcile_load ::
  "Deposit list \<Rightarrow> (string \<times> Deposit ref) list \<Rightarrow> Load ref
     \<Rightarrow> 'p Reconciliation list \<times> Load ref list \<Rightarrow> 'p Reconciliation list \<times> Load ref list" where
  "reconcile_load deposits by_ref il st =
     (case st of (reconciled, unmatched_loads) \<Rightarrow>
        case find_deposit deposits by_ref reconciled (snd il) of
          Some (matched_deposit, reason, confidence) \<Rightarrow>
            (reconciled @
               [\<lparr>rc_load = Some il, rc_payment = None, rc_deposit = Some matched_deposit,
                 match_confidence = Some confidence, rc_match_reason = Some reason\<rparr>],
             unmatched_loads)
        | None \<Rightarrow> (reconciled, unmatched_loads @ [il]))"

definition reconcile_data ::
  "Load list \<Rightarrow> 'p list \<Rightarrow> Deposit list
     \<Rightarrow> 'p Reconciliation list \<times> Load ref list \<times> 'p list \<times> Deposit ref list" where
  "reconcile_data loads payments deposits =
     (let by_ref = deposits_by_ref deposits
      in case fold (reconcile_load deposits by_ref) (enumerate 0 loads) ([], []) of
           (reconciled, unmatched_loads) \<Rightarrow>
             let matched_deposits = set (reconciled_deposits reconciled);
                 unmatched_deposits =
                   filter (\<lambda>(j, deposit). j \<notin> matched_deposits) (enumerate 0 deposits);
                 unmatched_payments = payments
             in (reconciled, unmatched_loads, unmatched_payments, unmatched_deposits))"

section \<open>Notions used to state the properties\<close>

definition date_diff :: "BankTransaction \<Rightarrow> datetime \<Rightarrow> int" where
  "date_diff bank_trans entry_date = \<bar>timedelta_days (transaction_date bank_trans - entry_date)\<bar>"

definition qualifies :: "int \<Rightarrow> datetime \<Rightarrow> rat \<Rightarrow> string \<Rightarrow> BankTransaction \<Rightarrow> bool" where
  "qualifies lookback_days entry_date entry_amount driver_normalized bank_trans =
     (normalize_driver_name (recipient bank_trans) = driver_normalized
      \<and> \<bar>bt_amount bank_trans - entry_amount\<bar> < 1 / 100
      \<and> date_diff bank_trans entry_date \<le> lookback_days)"

definition candidate :: "int \<Rightarrow> datetime \<Rightarrow> rat \<Rightarrow> string \<Rightarrow> nat set \<Rightarrow> nat \<times> BankTransaction \<Rightarrow> bool" where
  "candidate lb d a drv M x = (fst x \<notin> M \<and> qualifies lb d a drv (snd x))"

definition entry_refs :: "ReconciliationMatch list \<Rightarrow> DriverScheduleEntry ref list" where
  "entry_refs ms = concat (map (\<lambda>m. case driver_entry m of None \<Rightarrow> [] | Some e \<Rightarrow> [e]) ms)"

definition bank_refs :: "ReconciliationMatch list \<Rightarrow> BankTransaction ref list" where
  "bank_refs ms = concat (map (\<lambda>m. case bank_transaction m of None \<Rightarrow> [] | Some b \<Rightarrow> [b]) ms)"

definition has_amount :: "DriverScheduleEntry \<Rightarrow> bool" where
  "has_amount e = (truthy_amount (se_amount e) \<noteq> None)"

text \<open>The consumed transactions.\<close>

definition bank_inv :: "BankTransaction list \<Rightarrow> ReconciliationReport \<times> nat set \<times> nat set \<Rightarrow> bool" where
  "bank_inv bts st = (case st of (r, S, M) \<Rightarrow>
     set (map fst (bank_refs (full_matches r))) = M
     \<and> distinct (map fst (bank_refs (full_matches r)))
     \<and> (\<forall>b \<in> set (bank_refs (full_matches r)). fst b < length bts \<and> snd b = bts ! fst b))"

text \<open>What the loop leaves alone, and the shape of what it appends.\<close>

definition frame_inv :: "ReconciliationReport \<Rightarrow> ReconciliationReport \<times> nat set \<times> nat set \<Rightarrow> bool" where
  "frame_inv r0 st = (case st of (r, S, M) \<Rightarrow>
     r = r0\<lparr>full_matches := full_matches r, missing_bank_transactions := missing_bank_transactions r\<rparr>
     \<and> (\<forall>m \<in> set (full_matches r). m \<in> set (full_matches r0) \<or>
           (payment_remittance m = None \<and> match_type m = ''FULL''
            \<and> driver_entry m \<noteq> None \<and> bank_transaction m \<noteq> None)))"



definition get_summary :: "(string \<times> DriverSummary) list \<Rightarrow> string \<Rightarrow> DriverSummary" where
  "get_summary summ d = (case map_of summ d of None \<Rightarrow> default_summary | Some s \<Rightarrow> s)"

text \<open>Sample records, used to run the engine on concrete inputs.\<close>

definition sample_entry :: "datetime \<Rightarrow> string \<Rightarrow> rat option \<Rightarrow> DriverScheduleEntry" where
  "sample_entry d n a =
     \<lparr>se_date = d, driver = n, se_company = ''RPM'', se_pickup = ''Tulsa'', se_dropoff = ''OKC'',
      load_number = ''31594-20217'', se_amount = a, se_date_paid = None, se_notes = [],
      se_source_file = ''schedule.txt''\<rparr>"

definition sample_zelle :: "datetime \<Rightarrow> string \<Rightarrow> rat \<Rightarrow> BankTransaction" where
  "sample_zelle d n a =
     \<lparr>transaction_date = d, bt_amount = a, bt_description = ''Zelle to '' @ n, recipient = n,
      transaction_type = ''ZELLE'', bt_source_file = ''statement.txt''\<rparr>"

definition sample_remittance :: "datetime \<Rightarrow> rat \<Rightarrow> PaymentRemittance" where
  "sample_remittance d a =
     \<lparr>payment_date = d, payment_reference = ''2000123'', paper_document_number = ''77'',
      payment_amount = a, invoices = [], pr_source_file = ''remit.txt''\<rparr>"

definition sample_data :: ReconciliationData where
  "sample_data =
     \<lparr>payment_remittances = [sample_remittance (20 * day_us) 1200],
      bank_transactions = [sample_zelle (14 * day_us) ''Rich'' 500],
      driver_schedules =
        [sample_entry 0 ''BIGRICH'' (Some 500), sample_entry 0 ''Tony'' None,
         sample_entry day_us ''Tony'' (Some 300)]\<rparr>"


text \<open>Sample records, used to run the load-reference program on concrete inputs.\<close>

definition sample_load :: "string option \<Rightarrow> rat \<Rightarrow> Load" where
  "sample_load n a =
     \<lparr>ld_date = ''10/1/2025'', ld_company = ''RPM'', ld_pickup = ''Tulsa'', ld_dropoff = ''OKC'',
      load_num = n, ld_amount = a, ld_date_paid = None, ld_notes = None,
      ld_source_file = ''loads.txt''\<rparr>"

definition sample_deposit :: "string option \<Rightarrow> rat \<Rightarrow> Deposit" where
  "sample_deposit r a =
     \<lparr>dep_date = ''Apr 01'', dep_description = ''SmartTrucker SPV, LLC | Purchase | Acertus'',
      dep_amount = a, balance = 1000, load_ref = r, dep_source_file = ''bank.txt''\<rparr>"


definition partial_ref :: "Load \<Rightarrow> string \<Rightarrow> bool" where
  "partial_ref load dep_ref =
     (case load_num load of
        None \<Rightarrow> False
      | Some l \<Rightarrow> l \<noteq> [] \<and> dep_ref \<noteq> [] \<and> (str_in dep_ref l \<or> str_in l dep_ref))"

definition amount_close :: "Load \<Rightarrow> Deposit \<Rightarrow> bool" where
  "amount_close load deposit = (\<bar>dep_amount deposit - ld_amount load\<bar> < 1 / 100)"


text \<open>The amount scan.\<close>

definition usable :: "Load \<Rightarrow> nat list \<Rightarrow> Deposit ref \<Rightarrow> bool" where
  "usable load used jd = (amount_close load (snd jd) \<and> fst jd \<notin> set used)"


text \<open>
  What every reconciliation made by the loop looks like: it holds a deposit of the input, and
  either it came from the amount scan, or it came from a reference tier and its deposit is a
  value of the lookup.
\<close>

definition well_formed :: "Deposit list \<Rightarrow> 'p Reconciliation \<Rightarrow> bool" where
  "well_formed deposits rc =
     (case rc_deposit rc of
        None \<Rightarrow> False
      | Some jd \<Rightarrow>
          fst jd < length deposits \<and> snd jd = deposits ! fst jd
          \<and> (match_confidence rc = Some ''low''
              \<or> ((match_confidence rc = Some ''high'' \<or> match_confidence rc = Some ''medium'')
                  \<and> jd \<in> snd ` set (deposits_by_ref deposits))))"

definition duplicate_deposits :: "Deposit list" where
  "duplicate_deposits =
     [sample_deposit (Some ''RN25746A'') 100,
      sample_deposit (Some ''RN25746A'') 250,
      sample_deposit (Some ''RM1'') 55]"

section \<open>Properties of the normalizer\<close>








section \<open>The scan for the best bank transaction\<close>

lemma scan_step_eq:
  "scan_step lb d a drv M (i, bt) (b, s) =
     (if i \<notin> M \<and> qualifies lb d a drv bt \<and> s < 100 - date_diff bt d
      then (Some i, 100 - date_diff bt d) else (b, s))"
  by (auto simp: scan_step_def qualifies_def date_diff_def Let_def)

lemma scan_step_cand:
  "scan_step lb d a drv M x (b, s) =
     (if candidate lb d a drv M x \<and> s < 100 - date_diff (snd x) d
      then (Some (fst x), 100 - date_diff (snd x) d) else (b, s))"
  by (cases x) (simp add: scan_step_eq candidate_def)

lemma scan_fold:
  "fold (scan_step lb d a drv M) xs (b, s) = (b', s') \<Longrightarrow>
     s \<le> s' \<and>
     (\<forall>x \<in> set xs. candidate lb d a drv M x \<longrightarrow> 100 - date_diff (snd x) d \<le> s') \<and>
     ((b', s') = (b, s) \<or>
      (\<exists>pre x post. xs = pre @ x # post \<and> candidate lb d a drv M x
          \<and> 100 - date_diff (snd x) d = s' \<and> s < s' \<and> b' = Some (fst x)
          \<and> (\<forall>y \<in> set pre. candidate lb d a drv M y \<longrightarrow> 100 - date_diff (snd y) d < s')))"
proof (induction xs arbitrary: b s)
  case Nil
  then show ?case by simp
next
  case (Cons x xs)
  let ?sc = "\<lambda>y. 100 - date_diff (snd y) d"
  let ?take = "candidate lb d a drv M x \<and> s < ?sc x"
  obtain b1 s1 where st: "scan_step lb d a drv M x (b, s) = (b1, s1)"
    by (cases "scan_step lb d a drv M x (b, s)")
  then have b1: "(b1, s1) = (if ?take then (Some (fst x), ?sc x) else (b, s))"
    by (simp add: scan_step_cand)
  from Cons.prems st have f: "fold (scan_step lb d a drv M) xs (b1, s1) = (b', s')" by simp
  from Cons.IH [OF f] have le1: "s1 \<le> s'"
    and all: "\<forall>y \<in> set xs. candidate lb d a drv M y \<longrightarrow> ?sc y \<le> s'"
    and dis: "(b', s') = (b1, s1) \<or>
      (\<exists>pre y post. xs = pre @ y # post \<and> candidate lb d a drv M y
          \<and> ?sc y = s' \<and> s1 < s' \<and> b' = Some (fst y)
          \<and> (\<forall>z \<in> set pre. candidate lb d a drv M z \<longrightarrow> ?sc z < s'))" by blast+
  from b1 have s1: "s \<le> s1" and xs1: "candidate lb d a drv M x \<longrightarrow> ?sc x \<le> s1"
    by (auto split: if_splits)
  have A: "s \<le> s'" using s1 le1 by linarith
  have B: "\<forall>y \<in> set (x # xs). candidate lb d a drv M y \<longrightarrow> ?sc y \<le> s'"
    using all xs1 le1 by auto
  have C: "(b', s') = (b, s) \<or>
      (\<exists>pre y post. x # xs = pre @ y # post \<and> candidate lb d a drv M y
          \<and> ?sc y = s' \<and> s < s' \<and> b' = Some (fst y)
          \<and> (\<forall>z \<in> set pre. candidate lb d a drv M z \<longrightarrow> ?sc z < s'))"
    using dis
  proof
    assume e: "(b', s') = (b1, s1)"
    show ?thesis
    proof (cases ?take)
      case True
      with e b1 have "x # xs = [] @ x # xs \<and> candidate lb d a drv M x
          \<and> ?sc x = s' \<and> s < s' \<and> b' = Some (fst x)
          \<and> (\<forall>z \<in> set []. candidate lb d a drv M z \<longrightarrow> ?sc z < s')" by simp
      then show ?thesis by blast
    next
      case False
      with e b1 show ?thesis by simp
    qed
  next
    assume "\<exists>pre y post. xs = pre @ y # post \<and> candidate lb d a drv M y
          \<and> ?sc y = s' \<and> s1 < s' \<and> b' = Some (fst y)
          \<and> (\<forall>z \<in> set pre. candidate lb d a drv M z \<longrightarrow> ?sc z < s')"
    then obtain pre y post where p: "xs = pre @ y # post" "candidate lb d a drv M y"
      "?sc y = s'" "s1 < s'" "b' = Some (fst y)"
      "\<forall>z \<in> set pre. candidate lb d a drv M z \<longrightarrow> ?sc z < s'" by blast
    have "x # xs = (x # pre) @ y # post \<and> candidate lb d a drv M y
          \<and> ?sc y = s' \<and> s < s' \<and> b' = Some (fst y)
          \<and> (\<forall>z \<in> set (x # pre). candidate lb d a drv M z \<longrightarrow> ?sc z < s')"
      using p s1 xs1 by auto
    then show ?thesis by blast
  qed
  from A B C show ?case by blast
qed

text \<open>find_best_match over the enumerated list.\<close>

lemma enumerate_split:
  "enumerate 0 bts = pre @ x # post \<Longrightarrow>
     fst x = length pre \<and> length pre < length bts \<and> snd x = bts ! length pre
     \<and> (\<forall>k < length pre. (k, bts ! k) \<in> set pre)"
proof -
  assume e: "enumerate 0 bts = pre @ x # post"
  have len: "length pre < length bts"
    using arg_cong [OF e, of length] by simp
  have "enumerate 0 bts ! length pre = x" using e by simp
  then have x: "x = (length pre, bts ! length pre)" using len by (simp add: nth_enumerate_eq)
  have "\<forall>k < length pre. (k, bts ! k) \<in> set pre"
  proof (intro allI impI)
    fix k assume k: "k < length pre"
    then have "enumerate 0 bts ! k = pre ! k" using e by (simp add: nth_append)
    moreover have "enumerate 0 bts ! k = (k, bts ! k)" using k len by (simp add: nth_enumerate_eq)
    ultimately show "(k, bts ! k) \<in> set pre" using k by (metis nth_mem)
  qed
  with x len show ?thesis by simp
qed


lemma find_best_match_Some:
  assumes "find_best_match lb d a drv M bts = Some j"
  shows "j < length bts \<and> j \<notin> M \<and> qualifies lb d a drv (bts ! j)
     \<and> date_diff (bts ! j) d < 100
     \<and> (\<forall>k < length bts. k \<notin> M \<and> qualifies lb d a drv (bts ! k)
           \<longrightarrow> date_diff (bts ! j) d \<le> date_diff (bts ! k) d)
     \<and> (\<forall>k < j. k \<notin> M \<and> qualifies lb d a drv (bts ! k)
           \<longrightarrow> date_diff (bts ! j) d < date_diff (bts ! k) d)"
proof -
  obtain b' s' where f: "fold (scan_step lb d a drv M) (enumerate 0 bts) (None, 0) = (b', s')"
    by (cases "fold (scan_step lb d a drv M) (enumerate 0 bts) (None, 0)")
  with assms have b': "b' = Some j" by (simp add: find_best_match_def)
  from scan_fold [OF f] b' obtain pre x post where
    all: "\<forall>x \<in> set (enumerate 0 bts). candidate lb d a drv M x \<longrightarrow> 100 - date_diff (snd x) d \<le> s'"
    and p: "enumerate 0 bts = pre @ x # post" "candidate lb d a drv M x"
      "100 - date_diff (snd x) d = s'" "0 < s'" "Some j = Some (fst x)"
      "\<forall>y \<in> set pre. candidate lb d a drv M y \<longrightarrow> 100 - date_diff (snd y) d < s'"
    by auto
  from enumerate_split [OF p(1)] p(5) have j: "j = length pre" "j < length bts" "snd x = bts ! j"
    and pre: "\<forall>k < j. (k, bts ! k) \<in> set pre" by auto
  have c: "j \<notin> M \<and> qualifies lb d a drv (bts ! j)" using p(2) p(5) j by (simp add: candidate_def)
  have s': "s' = 100 - date_diff (bts ! j) d" using p(3) j by simp
  have lt: "date_diff (bts ! j) d < 100" using p(4) s' by simp
  have min: "\<forall>k < length bts. k \<notin> M \<and> qualifies lb d a drv (bts ! k)
           \<longrightarrow> date_diff (bts ! j) d \<le> date_diff (bts ! k) d"
  proof (intro allI impI)
    fix k assume k: "k < length bts" and q: "k \<notin> M \<and> qualifies lb d a drv (bts ! k)"
    have "(k, bts ! k) \<in> set (enumerate 0 bts)" using k by (auto simp: in_set_enumerate_eq)
    with all q have "100 - date_diff (bts ! k) d \<le> s'" by (force simp: candidate_def)
    with s' show "date_diff (bts ! j) d \<le> date_diff (bts ! k) d" by simp
  qed
  have first: "\<forall>k < j. k \<notin> M \<and> qualifies lb d a drv (bts ! k)
           \<longrightarrow> date_diff (bts ! j) d < date_diff (bts ! k) d"
  proof (intro allI impI)
    fix k assume k: "k < j" and q: "k \<notin> M \<and> qualifies lb d a drv (bts ! k)"
    from pre k have "(k, bts ! k) \<in> set pre" by simp
    with p(6) q have "100 - date_diff (bts ! k) d < s'" by (force simp: candidate_def)
    with s' show "date_diff (bts ! j) d < date_diff (bts ! k) d" by simp
  qed
  from j c lt min first show ?thesis by blast
qed


section \<open>Invariants of the loop over the schedules\<close>

lemma entry_refs_append [simp]: "entry_refs (xs @ ys) = entry_refs xs @ entry_refs ys"
  by (simp add: entry_refs_def)

lemma bank_refs_append [simp]: "bank_refs (xs @ ys) = bank_refs xs @ bank_refs ys"
  by (simp add: bank_refs_def)

lemma refs_full_match [simp]:
  "entry_refs [full_match e b] = [e]" "bank_refs [full_match e b] = [b]"
  by (simp_all add: entry_refs_def bank_refs_def full_match_def)

lemma refs_Nil [simp]: "entry_refs [] = []" "bank_refs [] = []"
  by (simp_all add: entry_refs_def bank_refs_def)

lemma match_entry_cases:
  obtains
    (skip) "\<not> has_amount (snd ie)" "match_entry lb bts ie (r, S, M) = (r, S, M)"
  | (full) amt j where "truthy_amount (se_amount (snd ie)) = Some amt"
      "find_best_match lb (se_date (snd ie)) amt (normalize_driver_name (driver (snd ie))) M bts = Some j"
      "match_entry lb bts ie (r, S, M) =
         (r\<lparr>full_matches := full_matches r @ [full_match ie (j, bts ! j)]\<rparr>,
          insert (fst ie) S, insert j M)"
  | (missing) amt where "truthy_amount (se_amount (snd ie)) = Some amt"
      "find_best_match lb (se_date (snd ie)) amt (normalize_driver_name (driver (snd ie))) M bts = None"
      "match_entry lb bts ie (r, S, M) =
         (r\<lparr>missing_bank_transactions := missing_bank_transactions r @ [ie]\<rparr>, S, M)"
proof (cases "truthy_amount (se_amount (snd ie))")
  case None
  then show ?thesis
    using skip by (cases ie) (simp add: match_entry_def has_amount_def)
next
  case (Some amt)
  show ?thesis
  proof (cases "find_best_match lb (se_date (snd ie)) amt (normalize_driver_name (driver (snd ie))) M bts")
    case None
    with Some show ?thesis using missing by (cases ie) (simp add: match_entry_def)
  next
    case (Some j)
    with \<open>truthy_amount (se_amount (snd ie)) = Some amt\<close> show ?thesis
      using full by (cases ie) (simp add: match_entry_def)
  qed
qed

lemma fold_invariant:
  "P st \<Longrightarrow> (\<And>x st. x \<in> set xs \<Longrightarrow> P st \<Longrightarrow> P (f x st)) \<Longrightarrow> P (fold f xs st)"
  by (induction xs arbitrary: st) auto

lemma match_entry_mset:
  assumes "match_entry lb bts ie (r, S, M) = (r', S', M')"
  shows "mset (entry_refs (full_matches r')) + mset (missing_bank_transactions r') =
         mset (entry_refs (full_matches r)) + mset (missing_bank_transactions r)
           + (if has_amount (snd ie) then {#ie#} else {#})"
  using assms by (cases rule: match_entry_cases [of ie lb bts r S M]) (auto simp: has_amount_def)

lemma fold_match_entry_mset:
  "fold (match_entry lb bts) xs (r, S, M) = (r', S', M') \<Longrightarrow>
     mset (entry_refs (full_matches r')) + mset (missing_bank_transactions r') =
     mset (entry_refs (full_matches r)) + mset (missing_bank_transactions r)
       + mset (filter (\<lambda>x. has_amount (snd x)) xs)"
proof (induction xs arbitrary: r S M)
  case Nil
  then show ?case by simp
next
  case (Cons x xs)
  obtain r1 S1 M1 where st: "match_entry lb bts x (r, S, M) = (r1, S1, M1)"
    by (cases "match_entry lb bts x (r, S, M)")
  with Cons.prems have "fold (match_entry lb bts) xs (r1, S1, M1) = (r', S', M')" by simp
  from Cons.IH [OF this] match_entry_mset [OF st] show ?case by simp
qed

lemma match_entry_bank_inv:
  assumes "bank_inv bts st"
  shows "bank_inv bts (match_entry lb bts ie st)"
proof -
  obtain r S M where st: "st = (r, S, M)" by (cases st)
  show ?thesis
  proof (cases rule: match_entry_cases [of ie lb bts r S M])
    case skip
    with assms st show ?thesis by simp
  next
    case (full amt j)
    from find_best_match_Some [OF full(2)] have "j < length bts" "j \<notin> M" by auto
    with assms st full(3) show ?thesis by (auto simp: bank_inv_def)
  next
    case (missing amt)
    with assms st show ?thesis by (auto simp: bank_inv_def)
  qed
qed

lemma fold_match_entry_bank_inv:
  "bank_inv bts st \<Longrightarrow> bank_inv bts (fold (match_entry lb bts) xs st)"
  by (rule fold_invariant) (auto intro: match_entry_bank_inv)

lemma match_entry_frame_inv:
  assumes "frame_inv r0 st"
  shows "frame_inv r0 (match_entry lb bts ie st)"
proof -
  obtain r S M where st: "st = (r, S, M)" by (cases st)
  from assms st have r: "r = r0\<lparr>full_matches := full_matches r, missing_bank_transactions := missing_bank_transactions r\<rparr>"
    by (simp add: frame_inv_def)
  show ?thesis
  proof (cases rule: match_entry_cases [of ie lb bts r S M])
    case skip
    with assms st show ?thesis by simp
  next
    case (full amt j)
    have "r\<lparr>full_matches := full_matches r @ [full_match ie (j, bts ! j)]\<rparr> =
          r0\<lparr>full_matches := full_matches r @ [full_match ie (j, bts ! j)],
             missing_bank_transactions := missing_bank_transactions r\<rparr>"
      by (subst r) simp
    with assms st full(3) show ?thesis by (auto simp: frame_inv_def full_match_def)
  next
    case (missing amt)
    have "r\<lparr>missing_bank_transactions := missing_bank_transactions r @ [ie]\<rparr> =
          r0\<lparr>full_matches := full_matches r,
             missing_bank_transactions := missing_bank_transactions r @ [ie]\<rparr>"
      by (subst r) simp
    with assms st missing(3) show ?thesis by (auto simp: frame_inv_def)
  qed
qed

lemma fold_match_entry_frame_inv:
  "frame_inv r0 st \<Longrightarrow> frame_inv r0 (fold (match_entry lb bts) xs st)"
  by (rule fold_invariant) (auto intro: match_entry_frame_inv)

section \<open>Properties of the driver summaries\<close>
















lemma get_summary_default [simp]: "get_summary [] d = default_summary"
  by (simp add: get_summary_def)



section \<open>Properties of one run of the engine\<close>

lemma build_driver_summaries_cong:
  "full_matches r = full_matches r' \<Longrightarrow> missing_bank_transactions r = missing_bank_transactions r'
     \<Longrightarrow> build_driver_summaries data r = build_driver_summaries data r'"
  by (simp add: build_driver_summaries_def)

lemma totals_report_lists [simp]:
  "full_matches (totals_report data) = []"
  "missing_bank_transactions (totals_report data) = []"
  "orphan_payments (totals_report data) = []"
  "partial_matches (totals_report data) = []"
  "total_remittances_received (totals_report data) = sum_list (map payment_amount (payment_remittances data))"
  by (simp_all add: totals_report_def empty_report_def Let_def)

lemma reconcile_unfold:
  assumes "reconcile data lb = (report, data')"
  shows "data' = sort_data data \<and>
     (\<exists>r2 S M. match_schedules lb data' (totals_report data') = (r2, S, M) \<and>
        report = r2\<lparr>orphan_bank_transactions :=
                       filter (\<lambda>(i, t). i \<notin> M) (enumerate 0 (bank_transactions data')),
                    driver_summaries := build_driver_summaries data' r2,
                    orphan_payments := []\<rparr>)"
proof -
  obtain r2 S M where m: "match_schedules lb (sort_data data) (totals_report (sort_data data)) = (r2, S, M)"
    by (cases "match_schedules lb (sort_data data) (totals_report (sort_data data))")
  have "build_driver_summaries (sort_data data)
          (r2\<lparr>orphan_bank_transactions :=
                 filter (\<lambda>(i, t). i \<notin> M) (enumerate 0 (bank_transactions (sort_data data)))\<rparr>)
        = build_driver_summaries (sort_data data) r2"
    by (rule build_driver_summaries_cong) simp_all
  with assms m show ?thesis
    by (auto simp: reconcile_def Let_def find_orphan_payments_def)
qed

lemma match_schedules_facts:
  assumes "match_schedules lb data r0 = (r2, S, M)"
    and "full_matches r0 = []" and "missing_bank_transactions r0 = []"
  shows "mset (entry_refs (full_matches r2)) + mset (missing_bank_transactions r2) =
           mset (filter (\<lambda>x. has_amount (snd x)) (enumerate 0 (driver_schedules data)))"
    and "bank_inv (bank_transactions data) (r2, S, M)"
    and "frame_inv r0 (r2, S, M)"
proof -
  from assms(1) have f: "fold (match_entry lb (bank_transactions data))
       (enumerate 0 (driver_schedules data)) (r0, {}, {}) = (r2, S, M)"
    by (simp add: match_schedules_def)
  from fold_match_entry_mset [OF f] assms(2,3)
  show "mset (entry_refs (full_matches r2)) + mset (missing_bank_transactions r2) =
           mset (filter (\<lambda>x. has_amount (snd x)) (enumerate 0 (driver_schedules data)))"
    by simp
  have "bank_inv (bank_transactions data) (r0, {}, {})"
    using assms(2) by (simp add: bank_inv_def)
  from fold_match_entry_bank_inv [OF this, of lb "enumerate 0 (driver_schedules data)"] f
  show "bank_inv (bank_transactions data) (r2, S, M)" by simp
  have "frame_inv r0 (r0, {}, {})"
    using assms(2) by (simp add: frame_inv_def)
  from fold_match_entry_frame_inv [OF this, of lb "bank_transactions data" "enumerate 0 (driver_schedules data)"] f
  show "frame_inv r0 (r2, S, M)" by simp
qed












lemma count_list_distinct:
  "distinct xs \<Longrightarrow> count_list xs x = (if x \<in> set xs then 1 else 0)"
  by (induction xs) auto

lemma count_list_mset_cong:
  "mset xs = mset ys \<Longrightarrow> count_list xs x = count_list ys x"
  by (metis count_mset)

lemma count_fst_filter_enumerate:
  "count_list (map fst (filter Q (enumerate 0 xs))) i =
     (if i < length xs \<and> Q (i, xs ! i) then 1 else 0)"
proof -
  have d: "distinct (map fst (filter Q (enumerate 0 xs)))"
    by (rule distinct_map_filter) simp
  have "i \<in> set (map fst (filter Q (enumerate 0 xs))) \<longleftrightarrow> i < length xs \<and> Q (i, xs ! i)"
  proof
    assume "i \<in> set (map fst (filter Q (enumerate 0 xs)))"
    then obtain x where x: "x \<in> set (enumerate 0 xs)" "Q x" "fst x = i" by auto
    then have "i < length xs" "x = (i, xs ! i)" by (auto simp: in_set_enumerate_eq)
    with x show "i < length xs \<and> Q (i, xs ! i)" by simp
  next
    assume a: "i < length xs \<and> Q (i, xs ! i)"
    then have "(i, xs ! i) \<in> set (filter Q (enumerate 0 xs))"
      by (simp add: in_set_enumerate_eq)
    then have "fst (i, xs ! i) \<in> fst ` set (filter Q (enumerate 0 xs))"
      by (rule imageI)
    then show "i \<in> set (map fst (filter Q (enumerate 0 xs)))" by simp
  qed
  with count_list_distinct [OF d, of i] show ?thesis by simp
qed

lemma reconcile_lists:
  assumes "reconcile data lb = (report, data')"
  shows "\<exists>r2 S M. match_schedules lb data' (totals_report data') = (r2, S, M)
     \<and> full_matches report = full_matches r2
     \<and> missing_bank_transactions report = missing_bank_transactions r2
     \<and> partial_matches report = []
     \<and> orphan_payments report = []
     \<and> total_remittances_received report = sum_list (map payment_amount (payment_remittances data'))
     \<and> orphan_bank_transactions report =
           filter (\<lambda>(i, t). i \<notin> M) (enumerate 0 (bank_transactions data'))"
proof -
  from reconcile_unfold [OF assms] obtain r2 S M where
    m: "match_schedules lb data' (totals_report data') = (r2, S, M)"
    and r: "report = r2\<lparr>orphan_bank_transactions :=
                       filter (\<lambda>(i, t). i \<notin> M) (enumerate 0 (bank_transactions data')),
                    driver_summaries := build_driver_summaries data' r2,
                    orphan_payments := []\<rparr>" by blast
  from match_schedules_facts(3) [OF m] have
    f: "r2 = (totals_report data')\<lparr>full_matches := full_matches r2,
             missing_bank_transactions := missing_bank_transactions r2\<rparr>"
    by (simp add: frame_inv_def)
  have "partial_matches r2 = []" by (subst f) simp
  moreover have "total_remittances_received r2 = sum_list (map payment_amount (payment_remittances data'))"
    by (subst f) simp
  ultimately show ?thesis using m r by auto
qed

text \<open>
  Claim C9, as it holds of the code. A reconcile call leaves in each of the three collections the same
  records as before (as a multiset), stably sorted by date in ascending order: records with
  the same date keep their order; a collection that is already in date order is unchanged.
  The collections are not modified after the sort.
\<close>

theorem reconcile_sorts_its_input:
  assumes "reconcile data lookback_days = (report, data')"
  shows "payment_remittances data' = sort_key payment_date (payment_remittances data)
     \<and> bank_transactions data' = sort_key transaction_date (bank_transactions data)
     \<and> driver_schedules data' = sort_key se_date (driver_schedules data)
     \<and> mset (payment_remittances data') = mset (payment_remittances data)
     \<and> mset (bank_transactions data') = mset (bank_transactions data)
     \<and> mset (driver_schedules data') = mset (driver_schedules data)
     \<and> sorted (map payment_date (payment_remittances data'))
     \<and> sorted (map transaction_date (bank_transactions data'))
     \<and> sorted (map se_date (driver_schedules data'))
     \<and> filter (\<lambda>p. payment_date p = k) (payment_remittances data')
          = filter (\<lambda>p. payment_date p = k) (payment_remittances data)
     \<and> filter (\<lambda>t. transaction_date t = k) (bank_transactions data')
          = filter (\<lambda>t. transaction_date t = k) (bank_transactions data)
     \<and> filter (\<lambda>e. se_date e = k) (driver_schedules data')
          = filter (\<lambda>e. se_date e = k) (driver_schedules data)
     \<and> (sorted (map payment_date (payment_remittances data))
          \<longrightarrow> payment_remittances data' = payment_remittances data)
     \<and> (sorted (map transaction_date (bank_transactions data))
          \<longrightarrow> bank_transactions data' = bank_transactions data)
     \<and> (sorted (map se_date (driver_schedules data))
          \<longrightarrow> driver_schedules data' = driver_schedules data)"
proof -
  from reconcile_unfold [OF assms] have d: "data' = sort_data data" by simp
  show ?thesis
    unfolding d sort_data_def
    by (simp add: sort_key_stable sort_key_id_if_sorted)
qed

theorem reconcile_sorts_its_input_witness:
  "bank_transactions (snd (reconcile sample_data 90)) = bank_transactions sample_data
   \<and> driver_schedules (snd (reconcile sample_data 90)) = driver_schedules sample_data
   \<and> sorted (map se_date (driver_schedules sample_data))
   \<and> mset (payment_remittances (snd (reconcile sample_data 90)))
        = mset (payment_remittances sample_data)"
proof -
  have r: "reconcile sample_data 90 = (fst (reconcile sample_data 90), snd (reconcile sample_data 90))"
    by simp
  have s1: "sorted (map transaction_date (bank_transactions sample_data))" by code_simp
  have s2: "sorted (map se_date (driver_schedules sample_data))" by code_simp
  note th = reconcile_sorts_its_input [OF r, of 0]
  from th have a: "sorted (map transaction_date (bank_transactions sample_data))
      \<longrightarrow> bank_transactions (snd (reconcile sample_data 90)) = bank_transactions sample_data"
    by blast
  from th have b: "sorted (map se_date (driver_schedules sample_data))
      \<longrightarrow> driver_schedules (snd (reconcile sample_data 90)) = driver_schedules sample_data"
    by blast
  from th have c: "mset (payment_remittances (snd (reconcile sample_data 90)))
        = mset (payment_remittances sample_data)"
    by blast
  from a b c s1 s2 show ?thesis by blast
qed

theorem input_order_counterexample:
  "bank_transactions (snd (reconcile
      \<lparr>payment_remittances = [],
       bank_transactions = [sample_zelle day_us ''Rich'' 500, sample_zelle 0 ''Tony'' 300],
       driver_schedules = []\<rparr> 90))
   = [sample_zelle 0 ''Tony'' 300, sample_zelle day_us ''Rich'' 500]
   \<and> [sample_zelle 0 ''Tony'' 300, sample_zelle day_us ''Rich'' 500]
       \<noteq> [sample_zelle day_us ''Rich'' 500, sample_zelle 0 ''Tony'' 300]"
  by code_simp

text \<open>
  Claim C6, as it holds of the code. For every input the orphan-payment list of the engine's report is
  empty, whatever payments the data holds; no payment is matched to a load (every FULL match
  carries no payment and no partial match is produced); the payments enter the report through
  the total of remittances received, which is the sum of all payment amounts.
\<close>

theorem payments_only_aggregated:
  assumes "reconcile data lookback_days = (report, data')"
  shows "orphan_payments report = []
     \<and> (\<forall>m \<in> set (full_matches report). payment_remittance m = None)
     \<and> partial_matches report = []
     \<and> total_remittances_received report = sum_list (map payment_amount (payment_remittances data))"
proof -
  from reconcile_lists [OF assms] obtain r2 S M where
    m: "match_schedules lookback_days data' (totals_report data') = (r2, S, M)"
    and l: "full_matches report = full_matches r2" "partial_matches report = []"
      "orphan_payments report = []"
      "total_remittances_received report = sum_list (map payment_amount (payment_remittances data'))"
    by blast
  from match_schedules_facts(3) [OF m] l(1)
  have 1: "\<forall>m \<in> set (full_matches report). payment_remittance m = None"
    by (auto simp: frame_inv_def)
  from reconcile_unfold [OF assms] have d: "data' = sort_data data" by simp
  have "mset (map payment_amount (payment_remittances data'))
      = mset (map payment_amount (payment_remittances data))"
    by (simp add: d sort_data_def)
  then have "sum_mset (mset (map payment_amount (payment_remittances data')))
      = sum_mset (mset (map payment_amount (payment_remittances data)))" by (rule arg_cong)
  then have 2: "sum_list (map payment_amount (payment_remittances data'))
      = sum_list (map payment_amount (payment_remittances data))"
    by (simp only: sum_mset_sum_list)
  from 1 2 l show ?thesis by simp
qed

theorem payments_only_aggregated_witness:
  "orphan_payments (fst (reconcile sample_data 90)) = []
   \<and> list_all (\<lambda>m. payment_remittance m = None) (full_matches (fst (reconcile sample_data 90)))
   \<and> length (full_matches (fst (reconcile sample_data 90))) = 1
   \<and> total_remittances_received (fst (reconcile sample_data 90)) = 1200"
proof -
  have r: "reconcile sample_data 90 = (fst (reconcile sample_data 90), snd (reconcile sample_data 90))"
    by simp
  have l: "length (full_matches (fst (reconcile sample_data 90))) = 1" by code_simp
  have t: "sum_list (map payment_amount (payment_remittances sample_data)) = 1200" by code_simp
  from payments_only_aggregated [OF r] l t show ?thesis by (simp add: list_all_iff)
qed

theorem orphan_payments_counterexample:
  "payment_remittances sample_data = [sample_remittance (20 * day_us) 1200]
   \<and> orphan_payments (fst (reconcile sample_data 90)) = []"
  by code_simp

text \<open>
  Claim C3, as it holds of the code. One run classifies every record exactly once: a load whose amount
  is present and not zero occurs exactly once in the FULL matches and the missing list taken
  together; a load whose amount is missing or zero occurs in neither; every bank transaction
  occurs exactly once in the FULL matches and the orphan list taken together. Every
  reference in these lists is a position of the sorted input list with the record found
  there, and every FULL match holds one load and one bank transaction.
\<close>

theorem every_record_classified_once:
  assumes "reconcile data lookback_days = (report, data')"
  shows "(\<forall>i < length (driver_schedules data').
            count_list (map fst (entry_refs (full_matches report))) i
              + count_list (map fst (missing_bank_transactions report)) i
            = (if has_amount (driver_schedules data' ! i) then 1 else 0))
     \<and> (\<forall>j < length (bank_transactions data').
            count_list (map fst (bank_refs (full_matches report))) j
              + count_list (map fst (orphan_bank_transactions report)) j = 1)
     \<and> (\<forall>ie \<in> set (entry_refs (full_matches report) @ missing_bank_transactions report).
            fst ie < length (driver_schedules data') \<and> snd ie = driver_schedules data' ! fst ie)
     \<and> (\<forall>b \<in> set (bank_refs (full_matches report) @ orphan_bank_transactions report).
            fst b < length (bank_transactions data') \<and> snd b = bank_transactions data' ! fst b)
     \<and> (\<forall>m \<in> set (full_matches report).
            match_type m = ''FULL'' \<and> driver_entry m \<noteq> None \<and> bank_transaction m \<noteq> None)"
proof -
  from reconcile_lists [OF assms] obtain r2 S M where
    m: "match_schedules lookback_days data' (totals_report data') = (r2, S, M)"
    and F: "full_matches report = full_matches r2"
    and U: "missing_bank_transactions report = missing_bank_transactions r2"
    and O: "orphan_bank_transactions report =
           filter (\<lambda>(i, t). i \<notin> M) (enumerate 0 (bank_transactions data'))"
    by blast
  let ?xs = "driver_schedules data'"
  let ?bts = "bank_transactions data'"
  let ?E = "entry_refs (full_matches report)"
  let ?U = "missing_bank_transactions report"
  let ?B = "bank_refs (full_matches report)"
  have e0: "full_matches (totals_report data') = []"
    "missing_bank_transactions (totals_report data') = []" by simp_all
  have ms: "mset (?E @ ?U) = mset (filter (\<lambda>x. has_amount (snd x)) (enumerate 0 ?xs))"
    using match_schedules_facts(1) [OF m e0] F U by simp
  have 1: "\<forall>i < length ?xs. count_list (map fst ?E) i + count_list (map fst ?U) i
            = (if has_amount (?xs ! i) then 1 else 0)"
  proof (intro allI impI)
    fix i assume i: "i < length ?xs"
    from ms have "mset (map fst (?E @ ?U))
        = mset (map fst (filter (\<lambda>x. has_amount (snd x)) (enumerate 0 ?xs)))"
      by (metis mset_map)
    from count_list_mset_cong [OF this, of i]
    have "count_list (map fst ?E) i + count_list (map fst ?U) i
        = count_list (map fst (filter (\<lambda>x. has_amount (snd x)) (enumerate 0 ?xs))) i"
      by simp
    with i show "count_list (map fst ?E) i + count_list (map fst ?U) i
            = (if has_amount (?xs ! i) then 1 else 0)"
      by (simp add: count_fst_filter_enumerate)
  qed
  have 3: "\<forall>ie \<in> set (?E @ ?U). fst ie < length ?xs \<and> snd ie = ?xs ! fst ie"
  proof
    fix ie assume "ie \<in> set (?E @ ?U)"
    with mset_eq_setD [OF ms] have "ie \<in> set (enumerate 0 ?xs)" by auto
    then show "fst ie < length ?xs \<and> snd ie = ?xs ! fst ie"
      by (auto simp: in_set_enumerate_eq)
  qed
  from match_schedules_facts(2) [OF m e0] F have
    bM: "set (map fst ?B) = M" and bd: "distinct (map fst ?B)"
    and bv: "\<forall>b \<in> set ?B. fst b < length ?bts \<and> snd b = ?bts ! fst b"
    by (simp_all add: bank_inv_def)
  have 2: "\<forall>j < length ?bts. count_list (map fst ?B) j
              + count_list (map fst (orphan_bank_transactions report)) j = 1"
  proof (intro allI impI)
    fix j assume j: "j < length ?bts"
    have "count_list (map fst ?B) j = (if j \<in> M then 1 else 0)"
      using count_list_distinct [OF bd, of j] bM by simp
    moreover have "count_list (map fst (orphan_bank_transactions report)) j = (if j \<notin> M then 1 else 0)"
      using j by (simp add: O count_fst_filter_enumerate)
    ultimately show "count_list (map fst ?B) j
              + count_list (map fst (orphan_bank_transactions report)) j = 1" by simp
  qed
  have 4: "\<forall>b \<in> set (?B @ orphan_bank_transactions report).
            fst b < length ?bts \<and> snd b = ?bts ! fst b"
    using bv by (auto simp: O in_set_enumerate_eq)
  have 5: "\<forall>m \<in> set (full_matches report).
            match_type m = ''FULL'' \<and> driver_entry m \<noteq> None \<and> bank_transaction m \<noteq> None"
    using match_schedules_facts(3) [OF m e0] F by (auto simp: frame_inv_def)
  from 1 2 3 4 5 show ?thesis by blast
qed

theorem every_record_classified_once_witness:
  "map fst (entry_refs (full_matches (fst (reconcile sample_data 90)))) = [0]
   \<and> map fst (missing_bank_transactions (fst (reconcile sample_data 90))) = [2]
   \<and> map fst (bank_refs (full_matches (fst (reconcile sample_data 90)))) = [0]
   \<and> orphan_bank_transactions (fst (reconcile sample_data 90)) = []
   \<and> map has_amount (driver_schedules (snd (reconcile sample_data 90))) = [True, False, True]
   \<and> list_all (\<lambda>m. match_type m = ''FULL'') (full_matches (fst (reconcile sample_data 90)))"
proof -
  have r: "reconcile sample_data 90 = (fst (reconcile sample_data 90), snd (reconcile sample_data 90))"
    by simp
  have e: "map fst (entry_refs (full_matches (fst (reconcile sample_data 90)))) = [0]"
    "map fst (missing_bank_transactions (fst (reconcile sample_data 90))) = [2]"
    "map fst (bank_refs (full_matches (fst (reconcile sample_data 90)))) = [0]"
    "orphan_bank_transactions (fst (reconcile sample_data 90)) = []"
    "map has_amount (driver_schedules (snd (reconcile sample_data 90))) = [True, False, True]"
    by code_simp+
  from every_record_classified_once [OF r]
  have "\<forall>m \<in> set (full_matches (fst (reconcile sample_data 90))). match_type m = ''FULL''"
    by blast
  with e show ?thesis by (simp add: list_all_iff)
qed

theorem zero_amount_load_counterexample:
  "se_amount (sample_entry 0 ''Tony'' (Some 0)) \<noteq> None
   \<and> full_matches (fst (reconcile
        \<lparr>payment_remittances = [], bank_transactions = [],
         driver_schedules = [sample_entry 0 ''Tony'' (Some 0)]\<rparr> 90)) = []
   \<and> missing_bank_transactions (fst (reconcile
        \<lparr>payment_remittances = [], bank_transactions = [],
         driver_schedules = [sample_entry 0 ''Tony'' (Some 0)]\<rparr> 90)) = []"
  by code_simp











section \<open>Properties of the load-reference program\<close>

lemma map_of_dict_set: "map_of (dict_set k v d) = (map_of d)(k \<mapsto> v)"
  by (induction d) (auto simp: fun_eq_iff)

lemma keys_dict_set:
  "map fst (dict_set k v d) = (if k \<in> set (map fst d) then map fst d else map fst d @ [k])"
  by (induction d) force+

lemma deposits_by_ref_snoc:
  "deposits_by_ref (ds @ [d]) =
     (case load_ref d of
        None \<Rightarrow> deposits_by_ref ds
      | Some r \<Rightarrow> if r = [] then deposits_by_ref ds
                  else dict_set r (length ds, d) (deposits_by_ref ds))"
  by (cases "load_ref d") (simp_all add: deposits_by_ref_def enumerate_append_eq)

lemma deposits_by_ref_Nil [simp]: "deposits_by_ref [] = []"
  by (simp add: deposits_by_ref_def)

lemma distinct_deposits_by_ref: "distinct (map fst (deposits_by_ref ds))"
  by (induction ds rule: rev_induct)
    (auto simp: deposits_by_ref_snoc keys_dict_set split: option.splits)


lemma deposits_by_ref_Some:
  "map_of (deposits_by_ref ds) r = Some jd \<Longrightarrow>
     r \<noteq> [] \<and> fst jd < length ds \<and> snd jd = ds ! fst jd \<and> load_ref (ds ! fst jd) = Some r
     \<and> (\<forall>k. fst jd < k \<and> k < length ds \<longrightarrow> load_ref (ds ! k) \<noteq> Some r)"
proof (induction ds arbitrary: jd rule: rev_induct)
  case Nil
  then show ?case by simp
next
  case (snoc d ds)
  show ?case
  proof (cases "load_ref d = Some r \<and> r \<noteq> []")
    case True
    with snoc.prems have "jd = (length ds, d)"
      by (simp add: deposits_by_ref_snoc map_of_dict_set)
    with True show ?thesis by (auto simp: nth_append)
  next
    case False
    with snoc.prems have m: "map_of (deposits_by_ref ds) r = Some jd"
      by (auto simp: deposits_by_ref_snoc map_of_dict_set split: option.splits if_splits)
    note ih = snoc.IH [OF m]
    from ih have lt: "fst jd < length ds" by simp
    have last: "\<forall>k. fst jd < k \<and> k < length (ds @ [d]) \<longrightarrow> load_ref ((ds @ [d]) ! k) \<noteq> Some r"
    proof (intro allI impI)
      fix k assume k: "fst jd < k \<and> k < length (ds @ [d])"
      show "load_ref ((ds @ [d]) ! k) \<noteq> Some r"
      proof (cases "k < length ds")
        case True
        with ih k show ?thesis by (simp add: nth_append)
      next
        case False
        with k have "k = length ds" by simp
        with False ih \<open>\<not> (load_ref d = Some r \<and> r \<noteq> [])\<close> show ?thesis by auto
      qed
    qed
    from ih lt last show ?thesis by (simp add: nth_append)
  qed
qed

lemma deposits_by_ref_None:
  "map_of (deposits_by_ref ds) r = None \<Longrightarrow> j < length ds \<Longrightarrow> r \<noteq> []
     \<Longrightarrow> load_ref (ds ! j) \<noteq> Some r"
proof (induction ds rule: rev_induct)
  case Nil
  then show ?case by simp
next
  case (snoc d ds)
  from snoc.prems(1) have d: "\<not> (load_ref d = Some r \<and> r \<noteq> [])"
    and m: "map_of (deposits_by_ref ds) r = None"
    by (auto simp: deposits_by_ref_snoc map_of_dict_set split: option.splits if_splits)
  show ?case
  proof (cases "j < length ds")
    case True
    with snoc.IH [OF m] snoc.prems(3) show ?thesis by (simp add: nth_append)
  next
    case False
    with snoc.prems(2) have "j = length ds" by simp
    with d snoc.prems(3) show ?thesis by simp
  qed
qed

lemma find_partial_step:
  "find_partial ((k, jd) # rest) (load_num load) =
     (if partial_ref load k then Some (k, jd) else find_partial rest (load_num load))"
  by (auto simp: partial_ref_def split: option.splits)



lemma find_partial_Some:
  "find_partial d (load_num load) = Some (k, jd)
     \<Longrightarrow> (k, jd) \<in> set d \<and> partial_ref load k"
proof (induction d)
  case Nil
  then show ?case by simp
next
  case (Cons x d)
  obtain k' jd' where x: "x = (k', jd')" by (cases x)
  show ?case
  proof (cases "partial_ref load k'")
    case True
    with Cons.prems x have "(k, jd) = (k', jd')" by (simp only: find_partial_step if_True) simp
    with True x show ?thesis by simp
  next
    case False
    with Cons.prems x have "find_partial d (load_num load) = Some (k, jd)"
      by (simp only: find_partial_step if_False)
    from Cons.IH [OF this] show ?thesis by simp
  qed
qed

lemma find_amount_step:
  "find_amount (jd # rest) (ld_amount load) used =
     (if usable load used jd then Some jd else find_amount rest (ld_amount load) used)"
  by (cases jd) (simp add: usable_def amount_close_def)



lemma find_amount_Some:
  "find_amount xs (ld_amount load) used = Some jd \<Longrightarrow> jd \<in> set xs \<and> usable load used jd"
proof (induction xs)
  case Nil
  then show ?case by simp
next
  case (Cons x xs)
  show ?case
  proof (cases "usable load used x")
    case True
    with Cons.prems have "jd = x" by (simp only: find_amount_step if_True) simp
    with True show ?thesis by simp
  next
    case False
    with Cons.prems have "find_amount xs (ld_amount load) used = Some jd"
      by (simp only: find_amount_step if_False)
    from Cons.IH [OF this] show ?thesis by simp
  qed
qed




lemma find_amount_enumerate_Some:
  assumes "find_amount (enumerate 0 ds) (ld_amount load) used = Some jd"
  shows "fst jd < length ds \<and> snd jd = ds ! fst jd \<and> usable load used jd"
  using find_amount_Some [OF assms] by (auto simp: in_set_enumerate_eq)





lemma deposits_by_ref_values:
  assumes "x \<in> set (deposits_by_ref ds)"
  shows "fst (snd x) < length ds \<and> snd (snd x) = ds ! fst (snd x)
     \<and> load_ref (ds ! fst (snd x)) = Some (fst x)
     \<and> (\<forall>i. fst (snd x) < i \<and> i < length ds \<longrightarrow> load_ref (ds ! i) \<noteq> Some (fst x))"
proof -
  from assms have "(fst x, snd x) \<in> set (deposits_by_ref ds)" by simp
  with distinct_deposits_by_ref [of ds] have "map_of (deposits_by_ref ds) (fst x) = Some (snd x)"
    by (rule map_of_is_SomeI)
  from deposits_by_ref_Some [OF this] show ?thesis by simp
qed



lemma find_deposit_result:
  assumes "find_deposit ds (deposits_by_ref ds) reconciled load = Some (jd, reason, conf)"
  shows "fst jd < length ds \<and> snd jd = ds ! fst jd
     \<and> (conf = ''low''
         \<or> ((conf = ''high'' \<or> conf = ''medium'') \<and> jd \<in> snd ` set (deposits_by_ref ds)))"
proof (cases "load_num load")
  case None
  with assms obtain jd' where
    "find_amount (enumerate 0 ds) (ld_amount load) (reconciled_deposits reconciled) = Some jd'"
    "jd = jd'" "conf = ''low''"
    by (auto simp: find_deposit_def split: option.splits)
  with find_amount_enumerate_Some [of ds load "reconciled_deposits reconciled" jd]
  show ?thesis by simp
next
  case (Some l)
  show ?thesis
  proof (cases "map_of (deposits_by_ref ds) l")
    case (Some jd')
    with assms \<open>load_num load = Some l\<close> have e: "jd = jd'" "conf = ''high''"
      by (simp_all add: find_deposit_def)
    from map_of_SomeD [OF Some] have "(l, jd') \<in> set (deposits_by_ref ds)" .
    then have m: "snd (l, jd') \<in> snd ` set (deposits_by_ref ds)" by (rule imageI)
    from deposits_by_ref_Some [OF Some] e m show ?thesis by simp
  next
    case None
    show ?thesis
    proof (cases "find_partial (deposits_by_ref ds) (load_num load)")
      case (Some kj)
      obtain k' jd' where kj: "kj = (k', jd')" by (cases kj)
      with Some assms None \<open>load_num load = Some l\<close> have e: "jd = jd'" "conf = ''medium''"
        by (simp_all add: find_deposit_def)
      from find_partial_Some [of "deposits_by_ref ds" load k' jd'] Some kj
      have mem: "(k', jd') \<in> set (deposits_by_ref ds)" by simp
      then have m: "snd (k', jd') \<in> snd ` set (deposits_by_ref ds)" by (rule imageI)
      from deposits_by_ref_values [OF mem] e m show ?thesis by simp
    next
      case None
      with assms \<open>map_of (deposits_by_ref ds) l = None\<close> \<open>load_num load = Some l\<close> obtain jd' where
        "find_amount (enumerate 0 ds) (ld_amount load) (reconciled_deposits reconciled) = Some jd'"
        "jd = jd'" "conf = ''low''"
        by (auto simp: find_deposit_def split: option.splits)
      with find_amount_enumerate_Some [of ds load "reconciled_deposits reconciled" jd]
      show ?thesis by simp
    qed
  qed
qed

lemma reconcile_load_well_formed:
  assumes "\<forall>rc \<in> set (fst st). well_formed ds rc"
  shows "\<forall>rc \<in> set (fst (reconcile_load ds (deposits_by_ref ds) il st)). well_formed ds rc"
proof -
  obtain reconciled ul where st: "st = (reconciled, ul)" by (cases st)
  show ?thesis
  proof (cases "find_deposit ds (deposits_by_ref ds) reconciled (snd il)")
    case None
    with assms st show ?thesis by (simp add: reconcile_load_def)
  next
    case (Some res)
    obtain jd reason conf where res: "res = (jd, reason, conf)" by (cases res)
    from find_deposit_result [of ds reconciled "snd il" jd reason conf] Some res
    have "well_formed ds
        \<lparr>rc_load = Some il, rc_payment = None, rc_deposit = Some jd,
         match_confidence = Some conf, rc_match_reason = Some reason\<rparr>"
      by (simp add: well_formed_def)
    with assms st Some res show ?thesis by (simp add: reconcile_load_def)
  qed
qed

lemma fold_reconcile_load_well_formed:
  "\<forall>rc \<in> set (fst (fold (reconcile_load ds (deposits_by_ref ds)) xs ([], []))).
      well_formed ds rc"
  by (rule fold_invariant [where P = "\<lambda>st. \<forall>rc \<in> set (fst st). well_formed ds rc"])
    (simp_all add: reconcile_load_well_formed)

lemma reconcile_data_unfold:
  assumes "reconcile_data loads payments deposits
             = (reconciled, unmatched_loads, unmatched_payments, unmatched_deposits)"
  shows "reconciled = fst (fold (reconcile_load deposits (deposits_by_ref deposits))
                             (enumerate 0 loads) ([], []))
     \<and> unmatched_payments = payments
     \<and> unmatched_deposits =
         filter (\<lambda>(j, deposit). j \<notin> set (reconciled_deposits reconciled)) (enumerate 0 deposits)"
  using assms by (auto simp: reconcile_data_def Let_def split: prod.splits)

lemma in_reconciled_deposits:
  "i \<in> set (reconciled_deposits reconciled)
     \<longleftrightarrow> (\<exists>rc \<in> set reconciled. map_option fst (rc_deposit rc) = Some i)"
proof -
  have "i \<in> set (case rc_deposit rc of None \<Rightarrow> [] | Some (j, d) \<Rightarrow> [j])
      \<longleftrightarrow> map_option fst (rc_deposit rc) = Some i" for rc :: "'a Reconciliation"
  proof (cases "rc_deposit rc")
    case None
    then show ?thesis by simp
  next
    case (Some jd)
    then show ?thesis by (cases jd) auto
  qed
  then show ?thesis by (simp add: reconciled_deposits_def)
qed

text \<open>
  Claim C10. Let two deposits at positions \<open>j < k\<close> carry the same non-empty reference. Then
  the lookup stores under this reference the last deposit that carries it; every
  reconciliation made by the exact or the substring tier holds a deposit after which no
  deposit of the same reference follows; a reconciliation that holds the earlier duplicate
  \<open>j\<close> was made by the amount tier; and if no reconciliation holds \<open>j\<close>, it is returned among
  the unmatched deposits.
\<close>

theorem duplicate_references_keep_last:
  assumes "reconcile_data loads payments deposits
             = (reconciled, unmatched_loads, unmatched_payments, unmatched_deposits)"
    and "j < k" and "k < length deposits"
    and "load_ref (deposits ! j) = Some r" and "load_ref (deposits ! k) = Some r"
    and "r \<noteq> []"
  shows "(\<exists>j'. map_of (deposits_by_ref deposits) r = Some (j', deposits ! j')
            \<and> k \<le> j' \<and> j' < length deposits \<and> load_ref (deposits ! j') = Some r
            \<and> (\<forall>i. j' < i \<and> i < length deposits \<longrightarrow> load_ref (deposits ! i) \<noteq> Some r))
     \<and> (\<forall>rc \<in> set reconciled. \<forall>jd.
            rc_deposit rc = Some jd
            \<and> (match_confidence rc = Some ''high'' \<or> match_confidence rc = Some ''medium'')
          \<longrightarrow> fst jd < length deposits \<and> snd jd = deposits ! fst jd
              \<and> (\<forall>i. fst jd < i \<and> i < length deposits
                    \<longrightarrow> load_ref (deposits ! i) \<noteq> load_ref (deposits ! fst jd)))
     \<and> (\<forall>rc \<in> set reconciled.
            map_option fst (rc_deposit rc) = Some j \<longrightarrow> match_confidence rc = Some ''low'')
     \<and> ((\<forall>rc \<in> set reconciled. map_option fst (rc_deposit rc) \<noteq> Some j)
          \<longrightarrow> (j, deposits ! j) \<in> set unmatched_deposits)"
proof -
  note u = reconcile_data_unfold [OF assms(1)]
  from u have wf: "\<forall>rc \<in> set reconciled. well_formed deposits rc"
    using fold_reconcile_load_well_formed [of deposits "enumerate 0 loads"] by simp
  have 1: "\<exists>j'. map_of (deposits_by_ref deposits) r = Some (j', deposits ! j')
            \<and> k \<le> j' \<and> j' < length deposits \<and> load_ref (deposits ! j') = Some r
            \<and> (\<forall>i. j' < i \<and> i < length deposits \<longrightarrow> load_ref (deposits ! i) \<noteq> Some r)"
  proof (cases "map_of (deposits_by_ref deposits) r")
    case None
    from deposits_by_ref_None [OF None assms(3,6)] assms(5) show ?thesis by simp
  next
    case (Some jd)
    note p = deposits_by_ref_Some [OF Some]
    from p have last: "\<forall>i. fst jd < i \<and> i < length deposits \<longrightarrow> load_ref (deposits ! i) \<noteq> Some r"
      by simp
    have "k \<le> fst jd"
    proof (rule ccontr)
      assume "\<not> k \<le> fst jd"
      with last assms(3) have "load_ref (deposits ! k) \<noteq> Some r" by simp
      with assms(5) show False by simp
    qed
    moreover from p have "jd = (fst jd, deposits ! fst jd)" by (simp add: prod_eq_iff)
    ultimately show ?thesis using Some p by metis
  qed
  have 2: "\<forall>rc \<in> set reconciled. \<forall>jd.
            rc_deposit rc = Some jd
            \<and> (match_confidence rc = Some ''high'' \<or> match_confidence rc = Some ''medium'')
          \<longrightarrow> fst jd < length deposits \<and> snd jd = deposits ! fst jd
              \<and> (\<forall>i. fst jd < i \<and> i < length deposits
                    \<longrightarrow> load_ref (deposits ! i) \<noteq> load_ref (deposits ! fst jd))"
  proof (intro ballI allI impI, elim conjE)
    fix rc jd
    assume rc: "rc \<in> set reconciled" and d: "rc_deposit rc = Some jd"
      and c: "match_confidence rc = Some ''high'' \<or> match_confidence rc = Some ''medium''"
    from wf rc d have w: "fst jd < length deposits" "snd jd = deposits ! fst jd"
      "match_confidence rc = Some ''low'' \<or> jd \<in> snd ` set (deposits_by_ref deposits)"
      by (auto simp: well_formed_def)
    from c w(3) have "jd \<in> snd ` set (deposits_by_ref deposits)" by auto
    then obtain x where x: "x \<in> set (deposits_by_ref deposits)" "jd = snd x" by blast
    from deposits_by_ref_values [OF x(1)] x(2)
    have "\<forall>i. fst jd < i \<and> i < length deposits
                    \<longrightarrow> load_ref (deposits ! i) \<noteq> load_ref (deposits ! fst jd)" by simp
    with w show "fst jd < length deposits \<and> snd jd = deposits ! fst jd
              \<and> (\<forall>i. fst jd < i \<and> i < length deposits
                    \<longrightarrow> load_ref (deposits ! i) \<noteq> load_ref (deposits ! fst jd))" by simp
  qed
  have 3: "\<forall>rc \<in> set reconciled.
            map_option fst (rc_deposit rc) = Some j \<longrightarrow> match_confidence rc = Some ''low''"
  proof (intro ballI impI)
    fix rc assume rc: "rc \<in> set reconciled" and h: "map_option fst (rc_deposit rc) = Some j"
    then obtain jd where d: "rc_deposit rc = Some jd" "fst jd = j" by auto
    from wf rc d have c: "match_confidence rc = Some ''low''
        \<or> match_confidence rc = Some ''high'' \<or> match_confidence rc = Some ''medium''"
      by (auto simp: well_formed_def)
    show "match_confidence rc = Some ''low''"
    proof (rule ccontr)
      assume "match_confidence rc \<noteq> Some ''low''"
      with c have "match_confidence rc = Some ''high'' \<or> match_confidence rc = Some ''medium''"
        by simp
      with 2 rc d have "\<forall>i. j < i \<and> i < length deposits
                    \<longrightarrow> load_ref (deposits ! i) \<noteq> load_ref (deposits ! j)" by blast
      with assms(2,3,4,5) show False by simp
    qed
  qed
  have 4: "(\<forall>rc \<in> set reconciled. map_option fst (rc_deposit rc) \<noteq> Some j)
          \<longrightarrow> (j, deposits ! j) \<in> set unmatched_deposits"
  proof
    assume "\<forall>rc \<in> set reconciled. map_option fst (rc_deposit rc) \<noteq> Some j"
    then have "j \<notin> set (reconciled_deposits reconciled)"
      by (simp add: in_reconciled_deposits)
    moreover have "(j, deposits ! j) \<in> set (enumerate 0 deposits)"
      using assms(2,3) by (simp add: in_set_enumerate_eq)
    ultimately show "(j, deposits ! j) \<in> set unmatched_deposits" using u by simp
  qed
  from 1 2 3 4 show ?thesis by blast
qed

theorem duplicate_references_keep_last_witness:
  "map_of (deposits_by_ref duplicate_deposits) ''RN25746A'' = Some (1, duplicate_deposits ! 1)
   \<and> map (\<lambda>rc. (map_option fst (rc_deposit rc), match_confidence rc))
        (fst (reconcile_data [sample_load (Some ''RN25746A'') 100, sample_load (Some ''77'') 100]
                ([] :: unit list) duplicate_deposits))
      = [(Some 1, Some ''high''), (Some 0, Some ''low'')]
   \<and> list_all (\<lambda>rc. map_option fst (rc_deposit rc) = Some 0 \<longrightarrow> match_confidence rc = Some ''low'')
        (fst (reconcile_data [sample_load (Some ''RN25746A'') 100, sample_load (Some ''77'') 100]
                ([] :: unit list) duplicate_deposits))"
proof -
  let ?loads = "[sample_load (Some ''RN25746A'') 100, sample_load (Some ''77'') 100]"
  let ?res = "reconcile_data ?loads ([] :: unit list) duplicate_deposits"
  have r: "?res = (fst ?res, fst (snd ?res), fst (snd (snd ?res)), snd (snd (snd ?res)))"
    by simp
  have h: "(0::nat) < 1" "1 < length duplicate_deposits"
    "load_ref (duplicate_deposits ! 0) = Some ''RN25746A''"
    "load_ref (duplicate_deposits ! 1) = Some ''RN25746A''"
    "''RN25746A'' \<noteq> []"
    by code_simp+
  have e: "map_of (deposits_by_ref duplicate_deposits) ''RN25746A'' = Some (1, duplicate_deposits ! 1)"
    "map (\<lambda>rc. (map_option fst (rc_deposit rc), match_confidence rc)) (fst ?res)
      = [(Some 1, Some ''high''), (Some 0, Some ''low'')]"
    by code_simp+
  from duplicate_references_keep_last [OF r h]
  have "\<forall>rc \<in> set (fst ?res).
            map_option fst (rc_deposit rc) = Some 0 \<longrightarrow> match_confidence rc = Some ''low''"
    by blast
  with e show ?thesis by (simp add: list_all_iff)
qed

text \<open>
  Claim C4, the load-reference program at a concrete input. Two loads, the first with the
  reference of the only deposit, the second with a reference contained in it: both
  reconciliations hold the deposit at position 0, one by the exact tier and one by the
  substring tier. The exact and substring tiers do not look at the deposits already held,
  as the amount tier does.
\<close>

theorem deposit_reused_by_reference_tiers:
  "map (\<lambda>rc. (map_option fst (rc_load rc), map_option fst (rc_deposit rc), match_confidence rc))
     (fst (reconcile_data
        [sample_load (Some ''RN25746A'') 100, sample_load (Some ''25746'') 250]
        ([] :: unit list)
        [sample_deposit (Some ''RN25746A'') 100]))
   = [(Some 0, Some 0, Some ''high''), (Some 1, Some 0, Some ''medium'')]"
  by code_simp

end
